theory Spec2Isabelle
  imports Main "HOL-Library.Product_Lexorder"
begin

section \<open>Data model\<close>

text \<open>
  A board cell is a Python tuple \<open>(i, j)\<close> of unbounded integers. A \<open>Sentence\<close> holds a
  set of cells and an integer count; \<open>Sentence.__init__\<close> copies the cells into a fresh
  set and stores the count unchecked.
\<close>

type_synonym cell = "int \<times> int"

record sentence =
  cells :: "cell set"
  count :: int

definition Sentence :: "cell set \<Rightarrow> int \<Rightarrow> sentence" where
  "Sentence cs n = \<lparr>cells = cs, count = n\<rparr>"

text \<open>\<open>Sentence.__eq__\<close>: same cells and same count.\<close>

definition sentence_eq :: "sentence \<Rightarrow> sentence \<Rightarrow> bool" where
  "sentence_eq x y \<longleftrightarrow> cells x = cells y \<and> count x = count y"

text \<open>\<open>Sentence.known_mines\<close> and \<open>Sentence.known_safes\<close>; \<open>len\<close> of a set is its
  cardinality.\<close>

definition known_mines :: "sentence \<Rightarrow> cell set" where
  "known_mines s = (if int (card (cells s)) = count s \<and> count s \<noteq> 0 then cells s else {})"

definition known_safes :: "sentence \<Rightarrow> cell set" where
  "known_safes s = (if count s = 0 then cells s else {})"

text \<open>\<open>Sentence.mark_mine\<close> and \<open>Sentence.mark_safe\<close> mutate the sentence in place; the
  model returns the updated sentence.\<close>

definition sentence_mark_mine :: "cell \<Rightarrow> sentence \<Rightarrow> sentence" where
  "sentence_mark_mine c s =
     (if c \<in> cells s then s\<lparr>cells := cells s - {c}, count := count s - 1\<rparr> else s)"

definition sentence_mark_safe :: "cell \<Rightarrow> sentence \<Rightarrow> sentence" where
  "sentence_mark_safe c s = (if c \<in> cells s then s\<lparr>cells := cells s - {c}\<rparr> else s)"

section \<open>The agent\<close>

text \<open>
  \<open>MinesweeperAI\<close>: the board size, the cells clicked, the cells known to be mines or
  safe, and the list of sentences. \<open>__init__\<close> starts with everything empty.
\<close>

record ai =
  height :: int
  width :: int
  moves_made :: "cell set"
  mines :: "cell set"
  safes :: "cell set"
  knowledge :: "sentence list"

definition init :: "int \<Rightarrow> int \<Rightarrow> ai" where
  "init h w = \<lparr>height = h, width = w, moves_made = {}, mines = {}, safes = {}, knowledge = []\<rparr>"

text \<open>\<open>MinesweeperAI.mark_mine\<close> and \<open>MinesweeperAI.mark_safe\<close>: record the cell, then
  update every sentence of the list in place.\<close>

definition ai_mark_mine :: "cell \<Rightarrow> ai \<Rightarrow> ai" where
  "ai_mark_mine c a =
     a\<lparr>mines := insert c (mines a), knowledge := map (sentence_mark_mine c) (knowledge a)\<rparr>"

definition ai_mark_safe :: "cell \<Rightarrow> ai \<Rightarrow> ai" where
  "ai_mark_safe c a =
     a\<lparr>safes := insert c (safes a), knowledge := map (sentence_mark_safe c) (knowledge a)\<rparr>"

text \<open>
  A Python \<open>for cell in X: body\<close> over a set \<open>X\<close> visits every member once, in an order
  the language leaves open. The model visits them in increasing order; the lemmas
  \<open>fold_ai_mark_safe\<close> and \<open>fold_ai_mark_mine\<close> below show that for the two bodies used
  here every order gives the same state.
\<close>

definition for_each :: "(cell \<Rightarrow> 'st \<Rightarrow> 'st) \<Rightarrow> cell set \<Rightarrow> 'st \<Rightarrow> 'st" where
  "for_each body X st = fold body (sorted_list_of_set X) st"

text \<open>
  The neighbour set built by \<open>add_knowledge\<close>. The source iterates over the two-element
  tuples \<open>(cell[0]-1, cell[0]+2)\<close> and \<open>(cell[1]-1, cell[1]+2)\<close>, so four cells are
  examined; each is kept when it is on the board, not known safe, not a known mine and
  not the cell itself.
\<close>

definition neighbors :: "ai \<Rightarrow> cell \<Rightarrow> cell set" where
  "neighbors a cell =
     set [(k, m). k \<leftarrow> [fst cell - 1, fst cell + 2], m \<leftarrow> [snd cell - 1, snd cell + 2],
            0 \<le> k \<and> k < height a \<and> 0 \<le> m \<and> m < width a,
            (k, m) \<notin> safes a, (k, m) \<notin> mines a, (k, m) \<noteq> cell]"

text \<open>
  One iteration of the loop \<open>for sentence in self.knowledge\<close> of \<open>add_knowledge\<close>, at
  list position \<open>i\<close>; \<open>si\<close> is the position of the new sentence \<open>s\<close>. Sentences are
  objects mutated in place, so \<open>sentence\<close> and \<open>s\<close> are read from the list again after
  each group of marks. In the source's condition
  \<open>s.count or sentence.count==0 and b is not None\<close> the list \<open>b\<close> is never \<open>None\<close>.
\<close>

definition visit :: "nat \<Rightarrow> nat \<Rightarrow> ai \<Rightarrow> ai" where
  "visit si i a0 =
     (let a1 = (if known_mines (knowledge a0 ! i) \<noteq> {}
                then for_each ai_mark_mine (known_mines (knowledge a0 ! i)) a0 else a0);
          a2 = (if known_safes (knowledge a1 ! i) \<noteq> {}
                then for_each ai_mark_safe (known_safes (knowledge a1 ! i)) a1 else a1);
          sentence = knowledge a2 ! i;
          s = knowledge a2 ! si
      in if sentence_eq sentence s then a2
         else
           (let a = cells sentence - cells s;
                b = cells s \<inter> cells sentence;
                c = count sentence - count s
            in if cells s \<subseteq> cells sentence then
                 (if c > 0 then
                    (if count s \<noteq> 0 \<or> (count sentence = 0 \<and> True)
                     then for_each ai_mark_safe b a2
                     else a2\<lparr>knowledge := knowledge a2 @ [Sentence a c]\<rparr>)
                  else a2)
               else a2))"

text \<open>
  The loop itself. A Python list iterator re-reads the length of the list at every step,
  so sentences appended by the body are visited too and the loop need not end:
  \<open>None\<close> is a run that never returns.
\<close>

partial_function (option) infer_loop :: "nat \<Rightarrow> nat \<Rightarrow> ai \<Rightarrow> ai option" where
  "infer_loop si i a =
     (if i < length (knowledge a) then infer_loop si (Suc i) (visit si i a) else Some a)"

declare infer_loop.simps [code]

text \<open>\<open>MinesweeperAI.add_knowledge\<close>.\<close>

definition add_knowledge :: "ai \<Rightarrow> cell \<Rightarrow> int \<Rightarrow> ai option" where
  "add_knowledge a cell n =
     (let a1 = ai_mark_safe cell (a\<lparr>moves_made := insert cell (moves_made a)\<rparr>);
          nbrs = neighbors a1 cell;
          neighbors_count = n - int (card (nbrs \<inter> mines a1));
          a2 = (if neighbors_count = 0 then for_each ai_mark_safe nbrs a1 else a1);
          a3 = (if neighbors_count = int (card nbrs) then for_each ai_mark_mine nbrs a2 else a2);
          s = Sentence nbrs neighbors_count;
          a4 = a3\<lparr>knowledge := knowledge a3 @ [s]\<rparr>
      in infer_loop (length (knowledge a3)) 0 a4)"

text \<open>A driver feeding a list of hints \<open>(cell, count)\<close> to \<open>add_knowledge\<close>, one call
  after the other; it returns only if every call does.\<close>

fun add_knowledge_seq :: "ai \<Rightarrow> (cell \<times> int) list \<Rightarrow> ai option" where
  "add_knowledge_seq a [] = Some a"
| "add_knowledge_seq a ((c, n) # hints) =
     (case add_knowledge a c n of None \<Rightarrow> None | Some a' \<Rightarrow> add_knowledge_seq a' hints)"

text \<open>
  \<open>MinesweeperAI.make_random_move\<close>. Python's \<open>A and B\<close> is \<open>A\<close> when \<open>A\<close> is falsy (an
  empty set) and \<open>B\<close> otherwise. \<open>random.choice\<close> returns the element at a random index
  below the length; the index drawn is the parameter \<open>rnd\<close>.
\<close>

definition py_and :: "'a set \<Rightarrow> 'a set \<Rightarrow> 'a set" where
  "py_and A B = (if A = {} then A else B)"

definition possible_moves :: "ai \<Rightarrow> cell list" where
  "possible_moves a =
     [(f, g). f \<leftarrow> [0 .. height a - 1 - 1], g \<leftarrow> [0 .. width a - 1 - 1],
              (f, g) \<notin> py_and (moves_made a) (mines a)]"

definition make_random_move :: "ai \<Rightarrow> nat \<Rightarrow> cell option" where
  "make_random_move a rnd =
     (if length (possible_moves a) \<noteq> 0
      then Some (possible_moves a ! (rnd mod length (possible_moves a)))
      else None)"

section \<open>The minefield\<close>

text \<open>
  \<open>Minesweeper\<close>: the board is a list of rows of booleans. Python list indexing accepts
  an index from \<open>-len\<close> up to \<open>len - 1\<close>, a negative one counting from the end, and
  raises \<open>IndexError\<close> outside that range.
\<close>

datatype error = IndexError

record minesweeper =
  m_height :: int
  m_width :: int
  board :: "bool list list"
  m_mines :: "cell set"
  mines_found :: "cell set"

definition py_index :: "'a list \<Rightarrow> int \<Rightarrow> error + 'a" where
  "py_index xs i =
     (if 0 \<le> i \<and> i < int (length xs) then Inr (xs ! nat i)
      else if - int (length xs) \<le> i \<and> i < 0 then Inr (xs ! nat (int (length xs) + i))
      else Inl IndexError)"

text \<open>\<open>Minesweeper.is_mine\<close>: \<open>self.board[i][j]\<close>.\<close>

definition is_mine :: "minesweeper \<Rightarrow> cell \<Rightarrow> error + bool" where
  "is_mine m cell =
     (case py_index (board m) (fst cell) of
        Inl e \<Rightarrow> Inl e
      | Inr row \<Rightarrow> py_index row (snd cell))"

text \<open>\<open>Minesweeper.nearby_mines\<close>: the body of the two nested loops, and the loops over
  \<open>range(cell[0]-1, cell[0]+2)\<close> and \<open>range(cell[1]-1, cell[1]+2)\<close>.\<close>

definition nearby_step :: "minesweeper \<Rightarrow> cell \<Rightarrow> cell \<Rightarrow> error + int \<Rightarrow> error + int" where
  "nearby_step m cell ij acc =
     (case acc of
        Inl e \<Rightarrow> Inl e
      | Inr cnt \<Rightarrow>
          if ij = cell then Inr cnt
          else if 0 \<le> fst ij \<and> fst ij < m_height m \<and> 0 \<le> snd ij \<and> snd ij < m_width m then
            (case is_mine m ij of
               Inl e \<Rightarrow> Inl e
             | Inr b \<Rightarrow> if b then Inr (cnt + 1) else Inr cnt)
          else Inr cnt)"

definition nearby_mines :: "minesweeper \<Rightarrow> cell \<Rightarrow> error + int" where
  "nearby_mines m cell =
     fold (nearby_step m cell)
       [(i, j). i \<leftarrow> [fst cell - 1 .. fst cell + 1], j \<leftarrow> [snd cell - 1 .. snd cell + 1]]
       (Inr 0)"

text \<open>The boards \<open>Minesweeper.__init__\<close> builds: \<open>height\<close> rows of \<open>width\<close> entries.\<close>

definition wf_board :: "minesweeper \<Rightarrow> bool" where
  "wf_board m \<longleftrightarrow>
     0 \<le> m_height m \<and> 0 \<le> m_width m \<and> length (board m) = nat (m_height m) \<and>
     list_all (\<lambda>row. length row = nat (m_width m)) (board m)"

section \<open>Notions used in the proofs\<close>

text \<open>
  The cells a loop over the set \<open>X\<close> visits (all of \<open>X\<close> when \<open>X\<close> is finite, as every
  Python set is), and the state after marking a whole set of cells safe or as mines.
\<close>

definition marked :: "cell set \<Rightarrow> cell set" where
  "marked X = set (sorted_list_of_set X)"

definition mark_safes :: "cell set \<Rightarrow> ai \<Rightarrow> ai" where
  "mark_safes Y a =
     a\<lparr>safes := safes a \<union> Y,
       knowledge := map (\<lambda>s. s\<lparr>cells := cells s - Y\<rparr>) (knowledge a)\<rparr>"

definition mark_mines :: "cell set \<Rightarrow> ai \<Rightarrow> ai" where
  "mark_mines Y a =
     a\<lparr>mines := mines a \<union> Y,
       knowledge := map (\<lambda>s. s\<lparr>cells := cells s - Y,
                                 count := count s - int (card (cells s \<inter> Y))\<rparr>) (knowledge a)\<rparr>"

text \<open>Appending a sentence to the knowledge list.\<close>

definition add_sentence :: "sentence \<Rightarrow> ai \<Rightarrow> ai" where
  "add_sentence s a = a\<lparr>knowledge := knowledge a @ [s]\<rparr>"

text \<open>
  The three parts of the loop body \<open>visit\<close>: the marks for the known mines of the
  sentence, the marks for its known safes, and the comparison with the new sentence.
\<close>

definition mine_stage :: "nat \<Rightarrow> ai \<Rightarrow> ai" where
  "mine_stage i a =
     (if known_mines (knowledge a ! i) \<noteq> {}
      then mark_mines (marked (known_mines (knowledge a ! i))) a else a)"

definition safe_stage :: "nat \<Rightarrow> ai \<Rightarrow> ai" where
  "safe_stage i a =
     (if known_safes (knowledge a ! i) \<noteq> {}
      then mark_safes (marked (known_safes (knowledge a ! i))) a else a)"

definition subset_stage :: "nat \<Rightarrow> nat \<Rightarrow> ai \<Rightarrow> ai" where
  "subset_stage si i a =
     (if sentence_eq (knowledge a ! i) (knowledge a ! si) then a
      else if cells (knowledge a ! si) \<subseteq> cells (knowledge a ! i)
              \<and> count (knowledge a ! i) - count (knowledge a ! si) > 0
           then (if count (knowledge a ! si) \<noteq> 0 \<or> count (knowledge a ! i) = 0
                 then mark_safes (marked (cells (knowledge a ! si) \<inter> cells (knowledge a ! i))) a
                 else add_sentence (Sentence (cells (knowledge a ! i) - cells (knowledge a ! si))
                                      (count (knowledge a ! i) - count (knowledge a ! si))) a)
           else a)"

text \<open>
  The part of \<open>add_knowledge\<close> before the loop: the state once the cell is recorded as a
  move and marked safe, and the state once the neighbours have been marked when the
  count is zero or equals their number.
\<close>

definition revealed :: "ai \<Rightarrow> cell \<Rightarrow> ai" where
  "revealed a c = mark_safes {c} (a\<lparr>moves_made := insert c (moves_made a)\<rparr>)"

definition premark :: "ai \<Rightarrow> cell \<Rightarrow> int \<Rightarrow> ai" where
  "premark a c n =
     (let a1 = revealed a c; nb = neighbors a1 c;
          a2 = (if n = 0 then mark_safes nb a1 else a1)
      in if n = int (card nb) then mark_mines nb a2 else a2)"

text \<open>
  A sentence is \<open>separate\<close> when none of its cells is known safe or known to be a mine.
  The new sentence is created after its cells may have been marked, so before the loop
  reaches it, it is either separate, or has count zero with all cells already safe, or
  has as many cells as its count with all cells already mines (\<open>premarked\<close>).
  \<open>loop_inv\<close> is the invariant of the loop, with \<open>si\<close> the position of the new sentence.
\<close>

definition separate :: "ai \<Rightarrow> sentence \<Rightarrow> bool" where
  "separate a s \<longleftrightarrow> cells s \<inter> (safes a \<union> mines a) = {}"

definition premarked :: "ai \<Rightarrow> sentence \<Rightarrow> bool" where
  "premarked a s \<longleftrightarrow>
     separate a s
     \<or> (count s = 0 \<and> finite (cells s) \<and> cells s \<subseteq> safes a)
     \<or> (count s = int (card (cells s)) \<and> cells s \<noteq> {} \<and> finite (cells s) \<and> cells s \<subseteq> mines a)"

definition loop_inv :: "nat \<Rightarrow> ai \<Rightarrow> bool" where
  "loop_inv si a \<longleftrightarrow>
     si < length (knowledge a) \<and> safes a \<inter> mines a = {}
     \<and> (\<forall>j < length (knowledge a). j \<noteq> si \<longrightarrow> separate a (knowledge a ! j))
     \<and> premarked a (knowledge a ! si)"

text \<open>
  \<open>consistent\<close>: no cell is both safe and a mine, and every sentence is separate.
  \<open>reachable\<close>: the states an agent gets to from \<open>init\<close> by calls of \<open>mark_mine\<close> on a
  cell not known safe, \<open>mark_safe\<close> on a cell not known to be a mine, and
  \<open>add_knowledge\<close> on a cell not known to be a mine, when the call returns.
\<close>

definition consistent :: "ai \<Rightarrow> bool" where
  "consistent a \<longleftrightarrow>
     safes a \<inter> mines a = {} \<and> (\<forall>s \<in> set (knowledge a). separate a s)"

inductive reachable :: "ai \<Rightarrow> bool" where
  start: "reachable (init h w)"
| mark_mine: "reachable a \<Longrightarrow> c \<notin> safes a \<Longrightarrow> reachable (ai_mark_mine c a)"
| mark_safe: "reachable a \<Longrightarrow> c \<notin> mines a \<Longrightarrow> reachable (ai_mark_safe c a)"
| hint: "reachable a \<Longrightarrow> c \<notin> mines a \<Longrightarrow> add_knowledge a c n = Some a' \<Longrightarrow> reachable a'"

text \<open>
  \<open>extends a b\<close>: from \<open>a\<close> to \<open>b\<close> the board size is kept, the three cell sets and the
  list of sentences only grow, and every sentence of \<open>a\<close> is still at its position, with
  no cell added to it.
\<close>

definition extends :: "ai \<Rightarrow> ai \<Rightarrow> bool" where
  "extends a b \<longleftrightarrow>
     height b = height a \<and> width b = width a \<and> moves_made a \<subseteq> moves_made b
     \<and> safes a \<subseteq> safes b \<and> mines a \<subseteq> mines b
     \<and> length (knowledge a) \<le> length (knowledge b)
     \<and> (\<forall>j < length (knowledge a). cells (knowledge b ! j) \<subseteq> cells (knowledge a ! j))"

section \<open>Loops over sets of cells\<close>

text \<open>Marking a list of cells one after the other, in any order, is one bulk update.\<close>

lemma sms_comp: "(sentence_mark_safe x s)\<lparr>cells := cells (sentence_mark_safe x s) - X\<rparr> = s\<lparr>cells := cells s - insert x X\<rparr>"
proof -
  have "cells s - {x} - X = cells s - insert x X" by auto
  moreover have "x \<notin> cells s \<Longrightarrow> cells s - insert x X = cells s - X" by auto
  ultimately show ?thesis by (simp add: sentence_mark_safe_def)
qed

lemma fold_ai_mark_safe:
  "fold ai_mark_safe xs a =
     a\<lparr>safes := safes a \<union> set xs,
       knowledge := map (\<lambda>s. s\<lparr>cells := cells s - set xs\<rparr>) (knowledge a)\<rparr>"
proof (induction xs arbitrary: a)
  case Nil
  show ?case by simp
next
  case (Cons x xs)
  have "fold ai_mark_safe (x # xs) a = fold ai_mark_safe xs (ai_mark_safe x a)" by simp
  also have "\<dots> = (ai_mark_safe x a)\<lparr>safes := safes (ai_mark_safe x a) \<union> set xs,
       knowledge := map (\<lambda>s. s\<lparr>cells := cells s - set xs\<rparr>) (knowledge (ai_mark_safe x a))\<rparr>"
    by (rule Cons.IH)
  also have "\<dots> = a\<lparr>safes := safes a \<union> set (x # xs),
       knowledge := map (\<lambda>s. s\<lparr>cells := cells s - set (x # xs)\<rparr>) (knowledge a)\<rparr>"
    unfolding ai_mark_safe_def by (simp add: sms_comp o_def)
  finally show ?case .
qed

lemma smm_comp:
  assumes "x \<notin> X" and "finite X"
  shows "(sentence_mark_mine x s)\<lparr>cells := cells (sentence_mark_mine x s) - X,
          count := count (sentence_mark_mine x s) - int (card (cells (sentence_mark_mine x s) \<inter> X))\<rparr>
       = s\<lparr>cells := cells s - insert x X, count := count s - int (card (cells s \<inter> insert x X))\<rparr>"
proof (cases "x \<in> cells s")
  case True
  have 1: "cells s - {x} - X = cells s - insert x X" by auto
  have 2: "(cells s - {x}) \<inter> X = cells s \<inter> X" using assms by auto
  have 3: "cells s \<inter> insert x X = insert x (cells s \<inter> X)" using True by auto
  have 4: "x \<notin> cells s \<inter> X" using assms by auto
  have 5: "finite (cells s \<inter> X)" using assms by simp
  show ?thesis using True 4 5 by (simp add: sentence_mark_mine_def 1 2 3)
next
  case False
  have 1: "cells s - insert x X = cells s - X" using False by auto
  have 2: "cells s \<inter> insert x X = cells s \<inter> X" using False by auto
  show ?thesis using False by (simp add: sentence_mark_mine_def 1 2)
qed

lemma fold_ai_mark_mine:
  "distinct xs \<Longrightarrow>
   fold ai_mark_mine xs a =
     a\<lparr>mines := mines a \<union> set xs,
       knowledge := map (\<lambda>s. s\<lparr>cells := cells s - set xs,
                                 count := count s - int (card (cells s \<inter> set xs))\<rparr>) (knowledge a)\<rparr>"
proof (induction xs arbitrary: a)
  case Nil
  show ?case by simp
next
  case (Cons x xs)
  have d: "distinct xs" and nx: "x \<notin> set xs" using Cons.prems by simp_all
  have "fold ai_mark_mine (x # xs) a = fold ai_mark_mine xs (ai_mark_mine x a)" by simp
  also have "\<dots> = (ai_mark_mine x a)\<lparr>mines := mines (ai_mark_mine x a) \<union> set xs,
       knowledge := map (\<lambda>s. s\<lparr>cells := cells s - set xs,
                                 count := count s - int (card (cells s \<inter> set xs))\<rparr>)
                      (knowledge (ai_mark_mine x a))\<rparr>"
    by (rule Cons.IH [OF d])
  also have "\<dots> = a\<lparr>mines := mines a \<union> set (x # xs),
       knowledge := map (\<lambda>s. s\<lparr>cells := cells s - set (x # xs),
                                 count := count s - int (card (cells s \<inter> set (x # xs)))\<rparr>)
                      (knowledge a)\<rparr>"
    unfolding ai_mark_mine_def by (simp add: smm_comp [OF nx] o_def)
  finally show ?case .
qed

section \<open>The marking loops as bulk updates\<close>

lemma marked_subset: "marked X \<subseteq> X"
  by (cases "finite X") (simp_all add: marked_def)

lemma marked_finite: "finite X \<Longrightarrow> marked X = X"
  by (simp add: marked_def)

lemma finite_marked: "finite (marked X)"
  by (simp add: marked_def)

lemma for_each_safe: "for_each ai_mark_safe X a = mark_safes (marked X) a"
  by (simp add: for_each_def fold_ai_mark_safe mark_safes_def marked_def)

lemma for_each_mine: "for_each ai_mark_mine X a = mark_mines (marked X) a"
  by (simp add: for_each_def fold_ai_mark_mine mark_mines_def marked_def)

lemma ai_mark_safe_bulk: "ai_mark_safe c a = mark_safes {c} a"
  using fold_ai_mark_safe [of "[c]" a] by (simp add: mark_safes_def)

lemma ai_mark_mine_bulk: "ai_mark_mine c a = mark_mines {c} a"
  using fold_ai_mark_mine [of "[c]" a] by (simp add: mark_mines_def)

lemma mark_mines_simps [simp]:
  "height (mark_mines Y a) = height a" "width (mark_mines Y a) = width a"
  "moves_made (mark_mines Y a) = moves_made a"
  "safes (mark_mines Y a) = safes a" "mines (mark_mines Y a) = mines a \<union> Y"
  "length (knowledge (mark_mines Y a)) = length (knowledge a)"
  by (simp_all add: mark_mines_def)

lemma mark_safes_simps [simp]:
  "height (mark_safes Y a) = height a" "width (mark_safes Y a) = width a"
  "moves_made (mark_safes Y a) = moves_made a"
  "safes (mark_safes Y a) = safes a \<union> Y" "mines (mark_safes Y a) = mines a"
  "length (knowledge (mark_safes Y a)) = length (knowledge a)"
  by (simp_all add: mark_safes_def)

lemma add_sentence_simps [simp]:
  "height (add_sentence s a) = height a" "width (add_sentence s a) = width a"
  "moves_made (add_sentence s a) = moves_made a"
  "safes (add_sentence s a) = safes a" "mines (add_sentence s a) = mines a"
  "length (knowledge (add_sentence s a)) = Suc (length (knowledge a))"
  by (simp_all add: add_sentence_def)

lemma knowledge_add_sentence: "knowledge (add_sentence s a) = knowledge a @ [s]"
  by (simp add: add_sentence_def)

lemma nth_mark_mines:
  "j < length (knowledge a) \<Longrightarrow>
   cells (knowledge (mark_mines Y a) ! j) = cells (knowledge a ! j) - Y \<and>
   count (knowledge (mark_mines Y a) ! j) = count (knowledge a ! j) - int (card (cells (knowledge a ! j) \<inter> Y))"
  by (simp add: mark_mines_def)

lemma nth_mark_safes:
  "j < length (knowledge a) \<Longrightarrow>
   cells (knowledge (mark_safes Y a) ! j) = cells (knowledge a ! j) - Y \<and>
   count (knowledge (mark_safes Y a) ! j) = count (knowledge a ! j)"
  by (simp add: mark_safes_def)

lemma nth_mark_mines_same:
  assumes "j < length (knowledge a)" and "cells (knowledge a ! j) \<inter> Y = {}"
  shows "knowledge (mark_mines Y a) ! j = knowledge a ! j"
proof -
  have "cells (knowledge a ! j) - Y = cells (knowledge a ! j)" using assms(2) by auto
  then show ?thesis using assms by (simp add: mark_mines_def)
qed

lemma nth_mark_safes_same:
  assumes "j < length (knowledge a)" and "cells (knowledge a ! j) \<inter> Y = {}"
  shows "knowledge (mark_safes Y a) ! j = knowledge a ! j"
proof -
  have "cells (knowledge a ! j) - Y = cells (knowledge a ! j)" using assms(2) by auto
  then show ?thesis using assms by (simp add: mark_safes_def)
qed

lemma known_mines_subset: "known_mines s \<subseteq> cells s"
  by (simp add: known_mines_def)

lemma known_safes_subset: "known_safes s \<subseteq> cells s"
  by (simp add: known_safes_def)

lemma visit_stages: "visit si i a = subset_stage si i (safe_stage i (mine_stage i a))"
  unfolding visit_def mine_stage_def safe_stage_def subset_stage_def for_each_safe for_each_mine
    add_sentence_def Let_def
  by simp

lemma length_mine_stage [simp]: "length (knowledge (mine_stage i a)) = length (knowledge a)"
  by (simp add: mine_stage_def)

lemma length_safe_stage [simp]: "length (knowledge (safe_stage i a)) = length (knowledge a)"
  by (simp add: safe_stage_def)

lemma length_subset_stage: "length (knowledge a) \<le> length (knowledge (subset_stage si i a))"
  by (simp add: subset_stage_def)

section \<open>A proof rule for the loop\<close>

text \<open>An invariant kept by every iteration holds when the loop returns, at an index past the
  end of the list.\<close>

lemma infer_loop_rule:
  assumes run: "infer_loop si i a = Some a'"
    and init: "I i a"
    and step: "\<And>i a. I i a \<Longrightarrow> i < length (knowledge a) \<Longrightarrow> I (Suc i) (visit si i a)"
  shows "\<exists>j. I j a' \<and> length (knowledge a') \<le> j"
proof -
  let ?P = "\<lambda>s i a y. s = si \<longrightarrow> I i a \<longrightarrow> (\<exists>j. I j y \<and> length (knowledge y) \<le> j)"
  have "?P si i a a'"
  proof (rule infer_loop.raw_induct [where P = ?P, OF _ run])
    fix loop s i a y
    assume IH: "\<And>s i a y. loop s i a = Some y \<Longrightarrow> ?P s i a y"
      and eq: "(if i < length (knowledge a) then loop s (Suc i) (visit s i a) else Some a) = Some y"
    show "?P s i a y"
    proof (intro impI)
      assume s: "s = si" and I: "I i a"
      show "\<exists>j. I j y \<and> length (knowledge y) \<le> j"
      proof (cases "i < length (knowledge a)")
        case True
        then have "loop s (Suc i) (visit s i a) = Some y" using eq by simp
        from IH [OF this] s step [OF I True] show ?thesis by simp
      next
        case False
        then have "y = a" using eq by simp
        then show ?thesis using I False by (intro exI [of _ i]) simp
      qed
    qed
  qed
  then show ?thesis using init by simp
qed

section \<open>Growth of the state\<close>

lemma extends_refl: "extends a a"
  by (simp add: extends_def)

lemma extends_trans:
  assumes "extends a b" and "extends b c"
  shows "extends a c"
  unfolding extends_def
proof (intro conjI allI impI)
  show "height c = height a" "width c = width a" using assms by (simp_all add: extends_def)
  show "moves_made a \<subseteq> moves_made c" "safes a \<subseteq> safes c" "mines a \<subseteq> mines c"
    using assms unfolding extends_def by blast+
  show "length (knowledge a) \<le> length (knowledge c)" using assms by (simp add: extends_def)
  show "cells (knowledge c ! j) \<subseteq> cells (knowledge a ! j)" if j: "j < length (knowledge a)" for j
  proof -
    have "j < length (knowledge b)" using j assms(1) by (simp add: extends_def)
    then have "cells (knowledge c ! j) \<subseteq> cells (knowledge b ! j)" using assms(2) by (simp add: extends_def)
    moreover have "cells (knowledge b ! j) \<subseteq> cells (knowledge a ! j)" using j assms(1) by (simp add: extends_def)
    ultimately show ?thesis by blast
  qed
qed

lemma extends_mark_mines: "extends a (mark_mines Y a)"
  by (auto simp: extends_def nth_mark_mines)

lemma extends_mark_safes: "extends a (mark_safes Y a)"
  by (auto simp: extends_def nth_mark_safes)

lemma extends_add_sentence: "extends a (add_sentence s a)"
  by (simp add: extends_def knowledge_add_sentence nth_append)

lemma extends_mine_stage: "extends a (mine_stage i a)"
  by (simp add: mine_stage_def extends_mark_mines extends_refl)

lemma extends_safe_stage: "extends a (safe_stage i a)"
  by (simp add: safe_stage_def extends_mark_safes extends_refl)

lemma extends_subset_stage: "extends a (subset_stage si i a)"
  by (simp add: subset_stage_def extends_mark_safes extends_add_sentence extends_refl)

lemma extends_visit: "extends a (visit si i a)"
  unfolding visit_stages
  by (blast intro: extends_trans extends_mine_stage extends_safe_stage extends_subset_stage)

lemma extends_infer_loop:
  assumes "infer_loop si i a = Some a'"
  shows "extends a a'"
proof -
  have "\<exists>j. extends a a' \<and> length (knowledge a') \<le> j"
  proof (rule infer_loop_rule [OF assms, where I = "\<lambda>i b. extends a b"])
    show "extends a a" by (rule extends_refl)
    show "extends a (visit si i b)" if "extends a b" for i b
      using that extends_visit by (rule extends_trans)
  qed
  then show ?thesis by blast
qed

section \<open>The steps of \<open>add_knowledge\<close> before the loop\<close>

text \<open>The neighbour set is filtered against the known mines before the count is adjusted, so
  the sentence always carries the count as supplied.\<close>

lemma finite_neighbors: "finite (neighbors a c)"
  by (simp add: neighbors_def)

lemma neighbors_undetermined: "neighbors a c \<inter> (safes a \<union> mines a) = {}"
  by (auto simp: neighbors_def)

text \<open>Whatever the state, only the four cells at the offsets \<open>-1\<close> and \<open>+2\<close> can enter the
  neighbour set.\<close>

lemma neighbors_corner_offsets:
  "neighbors a c \<subseteq> {(fst c - 1, snd c - 1), (fst c - 1, snd c + 2),
                       (fst c + 2, snd c - 1), (fst c + 2, snd c + 2)}"
  by (auto simp: neighbors_def)

lemma add_knowledge_stages:
  "add_knowledge a c n =
     infer_loop (length (knowledge a)) 0
       (add_sentence (Sentence (neighbors (revealed a c) c) n) (premark a c n))"
proof -
  define a1 where "a1 = revealed a c"
  define nb where "nb = neighbors a1 c"
  have fin: "finite nb" by (simp add: nb_def finite_neighbors)
  have "nb \<inter> mines a1 = {}" using neighbors_undetermined [of a1 c] by (auto simp: nb_def)
  then have cnt: "n - int (card (nb \<inter> mines a1)) = n" by simp
  have len: "length (knowledge (premark a c n)) = length (knowledge a)"
    by (simp add: premark_def Let_def revealed_def)
  show ?thesis
    unfolding add_knowledge_def Let_def ai_mark_safe_bulk for_each_safe for_each_mine
      revealed_def [symmetric] a1_def [symmetric] nb_def [symmetric] cnt marked_finite [OF fin]
    unfolding add_sentence_def [symmetric] len [symmetric]
    by (simp add: premark_def Let_def a1_def nb_def)
qed

lemma revealed_simps [simp]:
  "mines (revealed a c) = mines a" "safes (revealed a c) = insert c (safes a)"
  "length (knowledge (revealed a c)) = length (knowledge a)"
  by (simp_all add: revealed_def)

lemma premark_cases:
  "premark a c n =
     (if n = 0 then (if neighbors (revealed a c) c = {} then mark_mines {} (mark_safes {} (revealed a c))
                     else mark_safes (neighbors (revealed a c) c) (revealed a c))
      else if n = int (card (neighbors (revealed a c) c))
           then mark_mines (neighbors (revealed a c) c) (revealed a c)
           else revealed a c)"
  using finite_neighbors [of "revealed a c" c]
  by (auto simp: premark_def Let_def)

lemma premark_length [simp]: "length (knowledge (premark a c n)) = length (knowledge a)"
  by (simp add: premark_cases)

section \<open>Safe cells, mines and sentences stay apart\<close>

lemma separate_mark_mines:
  "j < length (knowledge a) \<Longrightarrow> separate a (knowledge a ! j) \<Longrightarrow>
   separate (mark_mines Y a) (knowledge (mark_mines Y a) ! j)"
  by (auto simp: separate_def nth_mark_mines)

lemma separate_mark_safes:
  "j < length (knowledge a) \<Longrightarrow> separate a (knowledge a ! j) \<Longrightarrow>
   separate (mark_safes Y a) (knowledge (mark_safes Y a) ! j)"
  by (auto simp: separate_def nth_mark_safes)

lemma separate_add_sentence:
  "j < length (knowledge a) \<Longrightarrow> separate a (knowledge a ! j) \<Longrightarrow>
   separate (add_sentence s a) (knowledge (add_sentence s a) ! j)"
  by (simp add: separate_def nth_append knowledge_add_sentence)

lemma premarked_mark_mines:
  assumes j: "j < length (knowledge a)" and p: "premarked a (knowledge a ! j)"
    and Y: "Y \<inter> (safes a \<union> mines a) = {}"
  shows "premarked (mark_mines Y a) (knowledge (mark_mines Y a) ! j)"
proof (cases "separate a (knowledge a ! j)")
  case True
  then show ?thesis using separate_mark_mines [OF j] by (simp add: premarked_def)
next
  case False
  then have "cells (knowledge a ! j) \<subseteq> safes a \<union> mines a" using p by (auto simp: premarked_def)
  then have "cells (knowledge a ! j) \<inter> Y = {}" using Y by auto
  then have eq: "knowledge (mark_mines Y a) ! j = knowledge a ! j" by (rule nth_mark_mines_same [OF j])
  define s where "s = knowledge a ! j"
  have "(count s = 0 \<and> finite (cells s) \<and> cells s \<subseteq> safes a)
     \<or> (count s = int (card (cells s)) \<and> cells s \<noteq> {} \<and> finite (cells s) \<and> cells s \<subseteq> mines a)"
    using p False by (simp add: premarked_def s_def)
  then have "(count s = 0 \<and> finite (cells s) \<and> cells s \<subseteq> safes (mark_mines Y a))
     \<or> (count s = int (card (cells s)) \<and> cells s \<noteq> {} \<and> finite (cells s) \<and> cells s \<subseteq> mines (mark_mines Y a))"
    by (elim disjE conjE) (simp_all add: le_supI1)
  then show ?thesis unfolding eq premarked_def s_def by blast
qed

lemma premarked_mark_safes:
  assumes j: "j < length (knowledge a)" and p: "premarked a (knowledge a ! j)"
    and Y: "Y \<inter> (safes a \<union> mines a) = {}"
  shows "premarked (mark_safes Y a) (knowledge (mark_safes Y a) ! j)"
proof (cases "separate a (knowledge a ! j)")
  case True
  then show ?thesis using separate_mark_safes [OF j] by (simp add: premarked_def)
next
  case False
  then have "cells (knowledge a ! j) \<subseteq> safes a \<union> mines a" using p by (auto simp: premarked_def)
  then have "cells (knowledge a ! j) \<inter> Y = {}" using Y by auto
  then have eq: "knowledge (mark_safes Y a) ! j = knowledge a ! j" by (rule nth_mark_safes_same [OF j])
  define s where "s = knowledge a ! j"
  have "(count s = 0 \<and> finite (cells s) \<and> cells s \<subseteq> safes a)
     \<or> (count s = int (card (cells s)) \<and> cells s \<noteq> {} \<and> finite (cells s) \<and> cells s \<subseteq> mines a)"
    using p False by (simp add: premarked_def s_def)
  then have "(count s = 0 \<and> finite (cells s) \<and> cells s \<subseteq> safes (mark_safes Y a))
     \<or> (count s = int (card (cells s)) \<and> cells s \<noteq> {} \<and> finite (cells s) \<and> cells s \<subseteq> mines (mark_safes Y a))"
    by (elim disjE conjE) (simp_all add: le_supI1)
  then show ?thesis unfolding eq premarked_def s_def by blast
qed

lemma loop_inv_mark_mines:
  assumes "loop_inv si a" and Y: "Y \<inter> (safes a \<union> mines a) = {}"
  shows "loop_inv si (mark_mines Y a)"
  unfolding loop_inv_def
proof (intro conjI allI impI)
  show "si < length (knowledge (mark_mines Y a))" using assms by (simp add: loop_inv_def)
  show "safes (mark_mines Y a) \<inter> mines (mark_mines Y a) = {}"
    using assms by (auto simp: loop_inv_def)
  show "separate (mark_mines Y a) (knowledge (mark_mines Y a) ! j)"
    if "j < length (knowledge (mark_mines Y a))" "j \<noteq> si" for j
    using that assms(1) by (intro separate_mark_mines) (simp_all add: loop_inv_def)
  show "premarked (mark_mines Y a) (knowledge (mark_mines Y a) ! si)"
    using assms by (intro premarked_mark_mines) (simp_all add: loop_inv_def)
qed

lemma loop_inv_mark_safes:
  assumes "loop_inv si a" and Y: "Y \<inter> (safes a \<union> mines a) = {}"
  shows "loop_inv si (mark_safes Y a)"
  unfolding loop_inv_def
proof (intro conjI allI impI)
  show "si < length (knowledge (mark_safes Y a))" using assms by (simp add: loop_inv_def)
  show "safes (mark_safes Y a) \<inter> mines (mark_safes Y a) = {}"
    using assms by (auto simp: loop_inv_def)
  show "separate (mark_safes Y a) (knowledge (mark_safes Y a) ! j)"
    if "j < length (knowledge (mark_safes Y a))" "j \<noteq> si" for j
    using that assms(1) by (intro separate_mark_safes) (simp_all add: loop_inv_def)
  show "premarked (mark_safes Y a) (knowledge (mark_safes Y a) ! si)"
    using assms by (intro premarked_mark_safes) (simp_all add: loop_inv_def)
qed

lemma loop_inv_add_sentence:
  assumes "loop_inv si a" and s: "separate a s"
  shows "loop_inv si (add_sentence s a)"
  unfolding loop_inv_def
proof (intro conjI allI impI)
  show "si < length (knowledge (add_sentence s a))" using assms by (simp add: loop_inv_def)
  show "safes (add_sentence s a) \<inter> mines (add_sentence s a) = {}"
    using assms by (simp add: loop_inv_def)
  show "separate (add_sentence s a) (knowledge (add_sentence s a) ! j)"
    if "j < length (knowledge (add_sentence s a))" "j \<noteq> si" for j
  proof (cases "j < length (knowledge a)")
    case True
    then show ?thesis using that assms(1) by (intro separate_add_sentence) (simp_all add: loop_inv_def)
  next
    case False
    then have "j = length (knowledge a)" using that by simp
    then show ?thesis using s by (simp add: separate_def knowledge_add_sentence)
  qed
  have "si < length (knowledge a)" using assms by (simp add: loop_inv_def)
  then show "premarked (add_sentence s a) (knowledge (add_sentence s a) ! si)"
    using assms(1) by (simp add: loop_inv_def nth_append premarked_def separate_def knowledge_add_sentence)
qed

lemma loop_inv_not_separate:
  assumes "loop_inv si a" and "i < length (knowledge a)" and "\<not> separate a (knowledge a ! i)"
  shows "i = si"
  using assms by (auto simp: loop_inv_def)

lemma stage_mines:
  assumes J: "loop_inv si a" and i: "i < length (knowledge a)"
  shows "loop_inv si (mark_mines (marked (known_mines (knowledge a ! i))) a)"
proof (cases "separate a (knowledge a ! i)")
  case True
  have "marked (known_mines (knowledge a ! i)) \<subseteq> cells (knowledge a ! i)"
    using marked_subset known_mines_subset by blast
  then have "marked (known_mines (knowledge a ! i)) \<inter> (safes a \<union> mines a) = {}"
    using True by (auto simp: separate_def)
  then show ?thesis by (rule loop_inv_mark_mines [OF J])
next
  case False
  then have isi: "i = si" by (rule loop_inv_not_separate [OF J i])
  define s where "s = knowledge a ! si"
  have pm: "premarked a s" using J by (simp add: loop_inv_def s_def)
  have cases: "(count s = 0 \<and> finite (cells s) \<and> cells s \<subseteq> safes a)
     \<or> (count s = int (card (cells s)) \<and> cells s \<noteq> {} \<and> finite (cells s) \<and> cells s \<subseteq> mines a)"
    using pm False by (simp add: premarked_def s_def isi)
  then show ?thesis
  proof
    assume "count s = 0 \<and> finite (cells s) \<and> cells s \<subseteq> safes a"
    then have "known_mines s = {}" by (simp add: known_mines_def)
    then have "marked (known_mines (knowledge a ! i)) \<inter> (safes a \<union> mines a) = {}"
      by (simp add: marked_def s_def isi)
    then show ?thesis by (rule loop_inv_mark_mines [OF J])
  next
    assume c: "count s = int (card (cells s)) \<and> cells s \<noteq> {} \<and> finite (cells s) \<and> cells s \<subseteq> mines a"
    then have "card (cells s) \<noteq> 0" by simp
    then have km: "known_mines s = cells s" using c by (simp add: known_mines_def)
    have Y: "marked (known_mines (knowledge a ! i)) = cells s"
      using c km by (simp add: marked_finite s_def isi)
    have si: "si < length (knowledge a)" using i isi by simp
    show ?thesis unfolding Y loop_inv_def
    proof (intro conjI allI impI)
      show "si < length (knowledge (mark_mines (cells s) a))" using si by simp
      show "safes (mark_mines (cells s) a) \<inter> mines (mark_mines (cells s) a) = {}"
        using J c by (auto simp: loop_inv_def)
      show "separate (mark_mines (cells s) a) (knowledge (mark_mines (cells s) a) ! j)"
        if "j < length (knowledge (mark_mines (cells s) a))" "j \<noteq> si" for j
        using that J by (intro separate_mark_mines) (simp_all add: loop_inv_def)
      have "cells (knowledge (mark_mines (cells s) a) ! si) = {}"
        using si by (simp add: nth_mark_mines s_def)
      then show "premarked (mark_mines (cells s) a) (knowledge (mark_mines (cells s) a) ! si)"
        by (simp add: premarked_def separate_def)
    qed
  qed
qed

lemma stage_safes:
  assumes J: "loop_inv si a" and i: "i < length (knowledge a)"
  shows "loop_inv si (mark_safes (marked (known_safes (knowledge a ! i))) a)"
proof (cases "separate a (knowledge a ! i)")
  case True
  have "marked (known_safes (knowledge a ! i)) \<subseteq> cells (knowledge a ! i)"
    using marked_subset known_safes_subset by blast
  then have "marked (known_safes (knowledge a ! i)) \<inter> (safes a \<union> mines a) = {}"
    using True by (auto simp: separate_def)
  then show ?thesis by (rule loop_inv_mark_safes [OF J])
next
  case False
  then have isi: "i = si" by (rule loop_inv_not_separate [OF J i])
  define s where "s = knowledge a ! si"
  have pm: "premarked a s" using J by (simp add: loop_inv_def s_def)
  have cases: "(count s = 0 \<and> finite (cells s) \<and> cells s \<subseteq> safes a)
     \<or> (count s = int (card (cells s)) \<and> cells s \<noteq> {} \<and> finite (cells s) \<and> cells s \<subseteq> mines a)"
    using pm False by (simp add: premarked_def s_def isi)
  then show ?thesis
  proof
    assume c: "count s = int (card (cells s)) \<and> cells s \<noteq> {} \<and> finite (cells s) \<and> cells s \<subseteq> mines a"
    then have "card (cells s) \<noteq> 0" by simp
    then have "known_safes s = {}" using c by (simp add: known_safes_def)
    then have "marked (known_safes (knowledge a ! i)) \<inter> (safes a \<union> mines a) = {}"
      by (simp add: marked_def s_def isi)
    then show ?thesis by (rule loop_inv_mark_safes [OF J])
  next
    assume c: "count s = 0 \<and> finite (cells s) \<and> cells s \<subseteq> safes a"
    then have km: "known_safes s = cells s" by (simp add: known_safes_def)
    have Y: "marked (known_safes (knowledge a ! i)) = cells s"
      using c km by (simp add: marked_finite s_def isi)
    have si: "si < length (knowledge a)" using i isi by simp
    show ?thesis unfolding Y loop_inv_def
    proof (intro conjI allI impI)
      show "si < length (knowledge (mark_safes (cells s) a))" using si by simp
      show "safes (mark_safes (cells s) a) \<inter> mines (mark_safes (cells s) a) = {}"
        using J c by (auto simp: loop_inv_def)
      show "separate (mark_safes (cells s) a) (knowledge (mark_safes (cells s) a) ! j)"
        if "j < length (knowledge (mark_safes (cells s) a))" "j \<noteq> si" for j
        using that J by (intro separate_mark_safes) (simp_all add: loop_inv_def)
      have "cells (knowledge (mark_safes (cells s) a) ! si) = {}"
        using si by (simp add: nth_mark_safes s_def)
      then show "premarked (mark_safes (cells s) a) (knowledge (mark_safes (cells s) a) ! si)"
        by (simp add: premarked_def separate_def)
    qed
  qed
qed

lemma mine_stage_inv:
  "loop_inv si a \<Longrightarrow> i < length (knowledge a) \<Longrightarrow> loop_inv si (mine_stage i a)"
  by (simp add: mine_stage_def stage_mines)

lemma safe_stage_inv:
  "loop_inv si a \<Longrightarrow> i < length (knowledge a) \<Longrightarrow> loop_inv si (safe_stage i a)"
  by (simp add: safe_stage_def stage_safes)

lemma subset_stage_inv:
  assumes J: "loop_inv si a" and i: "i < length (knowledge a)"
  shows "loop_inv si (subset_stage si i a)"
proof (cases "sentence_eq (knowledge a ! i) (knowledge a ! si)")
  case True
  then show ?thesis using J by (simp add: subset_stage_def)
next
  case False
  then have "i \<noteq> si" by (auto simp: sentence_eq_def)
  then have sep: "separate a (knowledge a ! i)" using J i by (simp add: loop_inv_def)
  have 1: "marked (cells (knowledge a ! si) \<inter> cells (knowledge a ! i)) \<inter> (safes a \<union> mines a) = {}"
    using marked_subset [of "cells (knowledge a ! si) \<inter> cells (knowledge a ! i)"] sep
    by (auto simp: separate_def)
  have 2: "separate a (Sentence (cells (knowledge a ! i) - cells (knowledge a ! si)) c)" for c
    using sep by (auto simp: separate_def Sentence_def)
  show ?thesis
    using False loop_inv_mark_safes [OF J 1] loop_inv_add_sentence [OF J 2] J
    by (simp add: subset_stage_def)
qed

lemma visit_inv:
  assumes "loop_inv si a" and "i < length (knowledge a)"
  shows "loop_inv si (visit si i a)"
  unfolding visit_stages using assms
  by (intro subset_stage_inv safe_stage_inv mine_stage_inv) simp_all

lemma mine_stage_separate:
  "j < length (knowledge a) \<Longrightarrow> separate a (knowledge a ! j) \<Longrightarrow>
   separate (mine_stage i a) (knowledge (mine_stage i a) ! j)"
  by (simp add: mine_stage_def separate_mark_mines)

lemma safe_stage_separate:
  "j < length (knowledge a) \<Longrightarrow> separate a (knowledge a ! j) \<Longrightarrow>
   separate (safe_stage i a) (knowledge (safe_stage i a) ! j)"
  by (simp add: safe_stage_def separate_mark_safes)

lemma subset_stage_separate:
  "j < length (knowledge a) \<Longrightarrow> separate a (knowledge a ! j) \<Longrightarrow>
   separate (subset_stage si i a) (knowledge (subset_stage si i a) ! j)"
  by (simp add: subset_stage_def separate_mark_safes separate_add_sentence)

lemma visit_separate:
  assumes "j < length (knowledge a)" and "separate a (knowledge a ! j)"
  shows "separate (visit si i a) (knowledge (visit si i a) ! j)"
  unfolding visit_stages using assms
  by (intro subset_stage_separate safe_stage_separate mine_stage_separate) simp_all

lemma empty_separate: "cells s = {} \<Longrightarrow> separate a s"
  by (simp add: separate_def)

lemma self_stages_separate:
  assumes J: "loop_inv si a"
  shows "separate (safe_stage si (mine_stage si a)) (knowledge (safe_stage si (mine_stage si a)) ! si)"
proof -
  define s where "s = knowledge a ! si"
  have si: "si < length (knowledge a)" using J by (simp add: loop_inv_def)
  have pm: "premarked a s" using J by (simp add: loop_inv_def s_def)
  consider (sep) "separate a s"
    | (safe) "count s = 0" "finite (cells s)" "cells s \<subseteq> safes a"
    | (mine) "count s = int (card (cells s))" "cells s \<noteq> {}" "finite (cells s)" "cells s \<subseteq> mines a"
    using pm by (auto simp: premarked_def)
  then show ?thesis
  proof cases
    case sep
    then show ?thesis using si unfolding s_def
      by (intro safe_stage_separate mine_stage_separate) simp_all
  next
    case safe
    have km: "known_mines s = {}" using safe by (simp add: known_mines_def)
    have m: "mine_stage si a = a" using km by (simp add: mine_stage_def s_def)
    have ks: "known_safes s = cells s" using safe by (simp add: known_safes_def)
    show ?thesis
    proof (cases "cells s = {}")
      case True
      then have "safe_stage si a = a" using ks by (simp add: safe_stage_def s_def)
      then show ?thesis using True by (simp add: m empty_separate s_def)
    next
      case False
      then have "safe_stage si a = mark_safes (cells s) a"
        using ks safe by (simp add: safe_stage_def s_def marked_finite)
      then show ?thesis using si by (simp add: m empty_separate nth_mark_safes s_def)
    qed
  next
    case mine
    have "card (cells s) \<noteq> 0" using mine by simp
    then have km: "known_mines s = cells s" using mine by (simp add: known_mines_def)
    then have m: "mine_stage si a = mark_mines (cells s) a"
      using mine by (simp add: mine_stage_def s_def marked_finite)
    have "cells (knowledge (mine_stage si a) ! si) = {}"
      using si by (simp add: m nth_mark_mines s_def)
    then have "separate (mine_stage si a) (knowledge (mine_stage si a) ! si)"
      by (rule empty_separate)
    then show ?thesis using si by (intro safe_stage_separate) simp_all
  qed
qed

lemma visit_self_separate:
  assumes J: "loop_inv si a"
  shows "separate (visit si si a) (knowledge (visit si si a) ! si)"
proof -
  have "visit si si a = safe_stage si (mine_stage si a)"
    by (simp add: visit_stages subset_stage_def sentence_eq_def)
  then show ?thesis using self_stages_separate [OF J] by simp
qed

lemma consistent_nth:
  "consistent a \<longleftrightarrow>
     safes a \<inter> mines a = {} \<and> (\<forall>j < length (knowledge a). separate a (knowledge a ! j))"
  by (simp add: consistent_def all_set_conv_all_nth)

lemma consistent_mark_safes:
  assumes "consistent a" and "Y \<inter> mines a = {}"
  shows "consistent (mark_safes Y a)"
  unfolding consistent_nth
proof (intro conjI allI impI)
  show "safes (mark_safes Y a) \<inter> mines (mark_safes Y a) = {}"
    using assms by (auto simp: consistent_nth)
  show "separate (mark_safes Y a) (knowledge (mark_safes Y a) ! j)"
    if "j < length (knowledge (mark_safes Y a))" for j
    using that assms(1) by (intro separate_mark_safes) (simp_all add: consistent_nth)
qed

lemma consistent_mark_mines:
  assumes "consistent a" and "Y \<inter> safes a = {}"
  shows "consistent (mark_mines Y a)"
  unfolding consistent_nth
proof (intro conjI allI impI)
  show "safes (mark_mines Y a) \<inter> mines (mark_mines Y a) = {}"
    using assms by (auto simp: consistent_nth)
  show "separate (mark_mines Y a) (knowledge (mark_mines Y a) ! j)"
    if "j < length (knowledge (mark_mines Y a))" for j
    using that assms(1) by (intro separate_mark_mines) (simp_all add: consistent_nth)
qed

lemma consistent_moves_made:
  "consistent a \<Longrightarrow> consistent (a\<lparr>moves_made := M\<rparr>)"
  by (simp add: consistent_def separate_def)

lemma consistent_revealed:
  assumes "consistent a" and "c \<notin> mines a"
  shows "consistent (revealed a c)"
  unfolding revealed_def using assms
  by (intro consistent_mark_safes consistent_moves_made) simp_all

lemma consistent_premark:
  assumes "consistent a" and "c \<notin> mines a"
  shows "consistent (premark a c n)"
proof -
  define a1 where "a1 = revealed a c"
  define nb where "nb = neighbors a1 c"
  have c1: "consistent a1" unfolding a1_def by (rule consistent_revealed [OF assms])
  have u: "nb \<inter> mines a1 = {}" "nb \<inter> safes a1 = {}"
    using neighbors_undetermined [of a1 c] by (auto simp: nb_def)
  have "consistent (mark_safes nb a1)" by (rule consistent_mark_safes [OF c1 u(1)])
  moreover have "consistent (mark_mines nb a1)" by (rule consistent_mark_mines [OF c1 u(2)])
  moreover have "consistent (mark_mines {} (mark_safes {} a1))"
    by (intro consistent_mark_mines consistent_mark_safes c1) simp_all
  ultimately show ?thesis using c1
    unfolding premark_cases a1_def [symmetric] nb_def [symmetric] by simp
qed

lemma premark_new_sentence:
  "premarked (premark a c n) (Sentence (neighbors (revealed a c) c) n)"
proof -
  define a1 where "a1 = revealed a c"
  define nb where "nb = neighbors a1 c"
  have fin: "finite nb" by (simp add: nb_def finite_neighbors)
  have u: "nb \<inter> (safes a1 \<union> mines a1) = {}"
    using neighbors_undetermined [of a1 c] by (simp add: nb_def)
  show ?thesis
    unfolding premark_cases a1_def [symmetric] nb_def [symmetric]
    using fin u by (auto simp: premarked_def separate_def Sentence_def)
qed

lemma loop_inv_start:
  assumes "consistent a" and "c \<notin> mines a"
  shows "loop_inv (length (knowledge a))
           (add_sentence (Sentence (neighbors (revealed a c) c) n) (premark a c n))"
proof -
  define a3 where "a3 = premark a c n"
  define s where "s = Sentence (neighbors (revealed a c) c) n"
  have c3: "consistent a3" unfolding a3_def by (rule consistent_premark [OF assms])
  have len: "length (knowledge a3) = length (knowledge a)" by (simp add: a3_def)
  have pm: "premarked a3 s" unfolding a3_def s_def by (rule premark_new_sentence)
  show ?thesis
    unfolding a3_def [symmetric] s_def [symmetric] loop_inv_def
  proof (intro conjI allI impI)
    show "length (knowledge a) < length (knowledge (add_sentence s a3))" by (simp add: len)
    show "safes (add_sentence s a3) \<inter> mines (add_sentence s a3) = {}"
      using c3 by (simp add: consistent_def)
    show "separate (add_sentence s a3) (knowledge (add_sentence s a3) ! j)"
      if "j < length (knowledge (add_sentence s a3))" "j \<noteq> length (knowledge a)" for j
    proof -
      have "j < length (knowledge a3)" using that by (simp add: len)
      then show ?thesis using c3 by (intro separate_add_sentence) (simp_all add: consistent_nth)
    qed
    show "premarked (add_sentence s a3) (knowledge (add_sentence s a3) ! length (knowledge a))"
      using pm by (simp add: knowledge_add_sentence len [symmetric] premarked_def separate_def)
  qed
qed

lemma add_knowledge_consistent:
  assumes cons: "consistent a" and c: "c \<notin> mines a" and run: "add_knowledge a c n = Some a'"
  shows "consistent a'"
proof -
  define si where "si = length (knowledge a)"
  define a4 where "a4 = add_sentence (Sentence (neighbors (revealed a c) c) n) (premark a c n)"
  let ?I = "\<lambda>i b. loop_inv si b \<and> (si < i \<longrightarrow> separate b (knowledge b ! si))"
  have run': "infer_loop si 0 a4 = Some a'"
    using run by (simp add: add_knowledge_stages si_def a4_def)
  have "\<exists>j. ?I j a' \<and> length (knowledge a') \<le> j"
  proof (rule infer_loop_rule [OF run', where I = ?I])
    show "?I 0 a4" unfolding si_def a4_def using loop_inv_start [OF cons c] by simp
  next
    fix i b
    assume I: "?I i b" and i: "i < length (knowledge b)"
    have si: "si < length (knowledge b)" using I by (simp add: loop_inv_def)
    have "loop_inv si (visit si i b)" using I i by (simp add: visit_inv)
    moreover have "separate (visit si i b) (knowledge (visit si i b) ! si)" if "si < Suc i"
    proof (cases "i = si")
      case True
      then show ?thesis using I visit_self_separate by simp
    next
      case False
      then have "si < i" using that by simp
      then show ?thesis using I si by (intro visit_separate) simp_all
    qed
    ultimately show "?I (Suc i) (visit si i b)" by simp
  qed
  then obtain j where J: "loop_inv si a'" and sep: "si < j \<longrightarrow> separate a' (knowledge a' ! si)"
    and j: "length (knowledge a') \<le> j" by blast
  have "si < length (knowledge a')" using J by (simp add: loop_inv_def)
  then have "separate a' (knowledge a' ! si)" using sep j by simp
  then have "\<forall>k < length (knowledge a'). separate a' (knowledge a' ! k)"
    using J unfolding loop_inv_def by metis
  then show ?thesis using J by (simp add: consistent_nth loop_inv_def)
qed

lemma consistent_init: "consistent (init h w)"
  by (simp add: consistent_def init_def)

lemma reachable_consistent: "reachable a \<Longrightarrow> consistent a"
proof (induction rule: reachable.induct)
  case (start h w)
  show ?case by (rule consistent_init)
next
  case (mark_mine a c)
  then show ?case unfolding ai_mark_mine_bulk by (intro consistent_mark_mines) simp_all
next
  case (mark_safe a c)
  then show ?case unfolding ai_mark_safe_bulk by (intro consistent_mark_safes) simp_all
next
  case (hint a c n a')
  then show ?case using add_knowledge_consistent by blast
qed

section \<open>Consequences for \<open>add_knowledge\<close>\<close>

lemma extends_add_knowledge:
  assumes "add_knowledge a c n = Some a'"
  shows "extends a a' \<and> length (knowledge a) < length (knowledge a')"
proof -
  define a4 where "a4 = add_sentence (Sentence (neighbors (revealed a c) c) n) (premark a c n)"
  have run: "infer_loop (length (knowledge a)) 0 a4 = Some a'"
    using assms by (simp add: add_knowledge_stages a4_def)
  have 1: "extends a (revealed a c)"
    unfolding revealed_def
    by (rule extends_trans [OF _ extends_mark_safes]) (auto simp: extends_def)
  have 2: "extends (revealed a c) (premark a c n)"
    unfolding premark_cases
    by (auto intro: extends_refl extends_mark_safes extends_mark_mines extends_trans)
  have 3: "extends (premark a c n) a4" unfolding a4_def by (rule extends_add_sentence)
  have 4: "extends a4 a'" by (rule extends_infer_loop [OF run])
  have "extends a a'" by (blast intro: extends_trans 1 2 3 4)
  moreover have "length (knowledge a4) = Suc (length (knowledge a))" by (simp add: a4_def)
  then have "length (knowledge a) < length (knowledge a')" using 4 by (simp add: extends_def)
  ultimately show ?thesis by simp
qed

lemma visit_marks:
  assumes fin: "finite (cells (knowledge b ! i))"
  shows "known_mines (knowledge b ! i) \<subseteq> mines (visit si i b)
       \<and> known_safes (knowledge b ! i) \<subseteq> safes (visit si i b)"
proof -
  define s where "s = knowledge b ! i"
  define b1 where "b1 = mine_stage i b"
  define b2 where "b2 = safe_stage i b1"
  have v: "visit si i b = subset_stage si i b2" by (simp add: visit_stages b1_def b2_def)
  have e2: "extends b1 b2" unfolding b2_def by (rule extends_safe_stage)
  have e3: "extends b2 (visit si i b)" unfolding v by (rule extends_subset_stage)
  have fm: "finite (known_mines s)" using fin known_mines_subset [of s] by (auto simp: s_def intro: finite_subset)
  have fs: "finite (known_safes s)" using fin known_safes_subset [of s] by (auto simp: s_def intro: finite_subset)
  have "known_mines s \<subseteq> mines b1"
    unfolding b1_def mine_stage_def s_def [symmetric] using fm by (simp add: marked_finite)
  then have m: "known_mines s \<subseteq> mines (visit si i b)"
    using e2 e3 unfolding extends_def by blast
  have "known_safes s \<subseteq> safes b2"
  proof (cases "known_safes s = {}")
    case True
    then show ?thesis by simp
  next
    case False
    then have "count s = 0" by (auto simp: known_safes_def split: if_splits)
    then have "known_mines s = {}" by (simp add: known_mines_def)
    then have "b1 = b" by (simp add: b1_def mine_stage_def s_def)
    then show ?thesis
      unfolding b2_def safe_stage_def using False fs by (simp add: marked_finite s_def)
  qed
  then have "known_safes s \<subseteq> safes (visit si i b)"
    using e3 unfolding extends_def by blast
  then show ?thesis using m by (simp add: s_def)
qed

lemma new_sentence_mines:
  assumes run: "add_knowledge a c n = Some a'"
    and n: "n = int (card (neighbors (revealed a c) c))"
  shows "neighbors (revealed a c) c \<subseteq> mines a'"
proof -
  define a4 where "a4 = add_sentence (Sentence (neighbors (revealed a c) c) n) (premark a c n)"
  have run': "infer_loop (length (knowledge a)) 0 a4 = Some a'"
    using run by (simp add: add_knowledge_stages a4_def)
  have "neighbors (revealed a c) c \<subseteq> mines (premark a c n)"
    unfolding premark_cases using n finite_neighbors [of "revealed a c" c] by auto
  then have "neighbors (revealed a c) c \<subseteq> mines a4" by (simp add: a4_def)
  then show ?thesis using extends_infer_loop [OF run'] unfolding extends_def by blast
qed

lemma revealed_source: "revealed a c = ai_mark_safe c (a\<lparr>moves_made := insert c (moves_made a)\<rparr>)"
  by (simp add: revealed_def ai_mark_safe_bulk)

section \<open>A call that does not return\<close>

text \<open>
  When the new sentence has no cells and count zero, every other sentence with a positive
  count that is not resolved is appended again, and the copy is visited in turn: the
  loop never ends. On a 2x3 board the hints \<open>((0,1), 1)\<close> and \<open>((0,2), 0)\<close> do this.
\<close>

lemma visit_appends_copy:
  assumes i: "knowledge b ! i = \<lparr>cells = {}, count = 1\<rparr>"
    and s: "knowledge b ! si = \<lparr>cells = {}, count = 0\<rparr>"
  shows "visit si i b = add_sentence \<lparr>cells = {}, count = 1\<rparr> b"
  unfolding visit_stages mine_stage_def safe_stage_def subset_stage_def i s
  by (simp add: i s known_mines_def known_safes_def sentence_eq_def Sentence_def)

lemma visit_new_sentence_idle:
  assumes s: "knowledge b ! si = \<lparr>cells = {}, count = 0\<rparr>"
  shows "visit si si b = b"
  unfolding visit_stages mine_stage_def safe_stage_def subset_stage_def s
  by (simp add: s known_mines_def known_safes_def sentence_eq_def)

lemma infer_loop_diverges:
  "infer_loop (Suc 0) 0
     \<lparr>height = 2, width = 3, moves_made = {(0, 1), (0, 2)}, mines = {}, safes = {(0, 1), (0, 2)},
      knowledge = [\<lparr>cells = {}, count = 1\<rparr>, \<lparr>cells = {}, count = 0\<rparr>]\<rparr> = None"
  (is "infer_loop (Suc 0) 0 ?A = None")
proof (rule ccontr)
  assume "infer_loop (Suc 0) 0 ?A \<noteq> None"
  then obtain a' where run: "infer_loop (Suc 0) 0 ?A = Some a'" by auto
  let ?I = "\<lambda>i (b::ai). i < length (knowledge b) \<and> Suc 0 < length (knowledge b)
      \<and> (i = Suc 0 \<longrightarrow> 3 \<le> length (knowledge b))
      \<and> knowledge b ! Suc 0 = \<lparr>cells = {}, count = 0\<rparr>
      \<and> (\<forall>j < length (knowledge b). j \<noteq> Suc 0 \<longrightarrow> knowledge b ! j = \<lparr>cells = {}, count = 1\<rparr>)"
  have "\<exists>j. ?I j a' \<and> length (knowledge a') \<le> j"
  proof (rule infer_loop_rule [OF run, where I = ?I])
    show "?I 0 ?A" by (simp add: less_Suc_eq)
  next
    fix i and b :: ai
    assume I: "?I i b" and i: "i < length (knowledge b)"
    have s: "knowledge b ! Suc 0 = \<lparr>cells = {}, count = 0\<rparr>" using I by simp
    show "?I (Suc i) (visit (Suc 0) i b)"
    proof (cases "i = Suc 0")
      case True
      have "visit (Suc 0) i b = b" unfolding True by (rule visit_new_sentence_idle [OF s])
      then show ?thesis using I True by simp
    next
      case False
      then have "knowledge b ! i = \<lparr>cells = {}, count = 1\<rparr>" using I i by simp
      then have v: "visit (Suc 0) i b = add_sentence \<lparr>cells = {}, count = 1\<rparr> b"
        using s by (rule visit_appends_copy)
      show ?thesis unfolding v using I i False
        by (auto simp: knowledge_add_sentence nth_append)
    qed
  qed
  then show False by auto
qed

theorem add_knowledge_may_not_return:
  "add_knowledge_seq (init 2 3) [((0, 1), 1), ((0, 2), 0)] = None"
proof -
  have 1: "add_knowledge (init 2 3) (0, 1) 1 =
     Some \<lparr>height = 2, width = 3, moves_made = {(0, 1)}, mines = {}, safes = {(0, 1)},
           knowledge = [\<lparr>cells = {}, count = 1\<rparr>]\<rparr>"
    by code_simp
  have nb: "neighbors (revealed \<lparr>height = 2, width = 3, moves_made = {(0, 1)}, mines = {},
      safes = {(0, 1)}, knowledge = [\<lparr>cells = {}, count = 1\<rparr>]\<rparr> (0, 2)) (0, 2) = {}"
    by (simp add: neighbors_def revealed_def mark_safes_def)
  have 2: "add_knowledge \<lparr>height = 2, width = 3, moves_made = {(0, 1)}, mines = {}, safes = {(0, 1)},
           knowledge = [\<lparr>cells = {}, count = 1\<rparr>]\<rparr> (0, 2) 0 = None"
    unfolding add_knowledge_stages premark_cases nb
    using infer_loop_diverges
    by (simp add: revealed_def mark_safes_def mark_mines_def add_sentence_def Sentence_def insert_commute)
  show ?thesis by (simp add: 1 2)
qed

section \<open>Minefield queries\<close>

lemma mod_wrap:
  fixes i n :: int
  assumes "- n \<le> i" and "i < 0"
  shows "i mod n = n + i"
proof -
  have "(i + n) mod n = i + n" using assms by (intro mod_pos_pos_trivial) simp_all
  then show ?thesis by (simp add: add.commute)
qed

lemma wf_board_row:
  assumes "wf_board m" and "k < length (board m)"
  shows "length (board m ! k) = nat (m_width m)"
  using assms by (simp add: wf_board_def list_all_length)

lemma is_mine_wf:
  assumes wf: "wf_board m"
  shows "is_mine m (i, j) =
     (if - m_height m \<le> i \<and> i < m_height m \<and> - m_width m \<le> j \<and> j < m_width m
      then Inr (board m ! nat (i mod m_height m) ! nat (j mod m_width m))
      else Inl IndexError)"
proof -
  have len: "int (length (board m)) = m_height m" using wf by (simp add: wf_board_def)
  have w0: "0 \<le> m_width m" using wf by (simp add: wf_board_def)
  show ?thesis
  proof (cases "- m_height m \<le> i \<and> i < m_height m")
    case False
    then show ?thesis by (auto simp: is_mine_def py_index_def len)
  next
    case True
    define k where "k = nat (i mod m_height m)"
    have hpos: "0 < m_height m" using True by linarith
    have kl: "k < length (board m)" using len hpos by (simp add: k_def nat_less_iff)
    have row: "py_index (board m) i = Inr (board m ! k)"
    proof (cases "0 \<le> i")
      case True
      with \<open>- m_height m \<le> i \<and> i < m_height m\<close> show ?thesis by (simp add: py_index_def len k_def)
    next
      case False
      then have "i mod m_height m = m_height m + i"
        using \<open>- m_height m \<le> i \<and> i < m_height m\<close> by (intro mod_wrap) simp_all
      with False \<open>- m_height m \<le> i \<and> i < m_height m\<close> show ?thesis by (simp add: py_index_def len k_def)
    qed
    have rl: "int (length (board m ! k)) = m_width m" using wf_board_row [OF wf kl] w0 by simp
    have im: "is_mine m (i, j) = py_index (board m ! k) j" by (simp add: is_mine_def row)
    show ?thesis
    proof (cases "- m_width m \<le> j \<and> j < m_width m")
      case False
      have "py_index (board m ! k) j = Inl IndexError"
        unfolding py_index_def rl using False by auto
      then show ?thesis using False by (simp add: im)
    next
      case jr: True
      have "py_index (board m ! k) j = Inr (board m ! k ! nat (j mod m_width m))"
      proof (cases "0 \<le> j")
        case True
        with jr show ?thesis unfolding py_index_def rl by simp
      next
        case False
        then have "j mod m_width m = m_width m + j" using jr by (intro mod_wrap) simp_all
        with False jr show ?thesis unfolding py_index_def rl by simp
      qed
      then show ?thesis using True jr by (simp add: im k_def)
    qed
  qed
qed

lemma nearby_step_wf:
  assumes wf: "wf_board m"
  shows "nearby_step m cell ij (Inr n) =
     Inr (if ij \<noteq> cell \<and> 0 \<le> fst ij \<and> fst ij < m_height m \<and> 0 \<le> snd ij \<and> snd ij < m_width m
              \<and> board m ! nat (fst ij) ! nat (snd ij)
          then n + 1 else n)"
proof (cases ij)
  case (Pair i j)
  show ?thesis
    unfolding Pair nearby_step_def is_mine_wf [OF wf] by simp
qed

lemma nearby_fold_wf:
  assumes wf: "wf_board m"
  shows "fold (nearby_step m cell) xs (Inr n) =
     Inr (n + int (length (filter (\<lambda>ij. ij \<noteq> cell \<and> 0 \<le> fst ij \<and> fst ij < m_height m \<and>
              0 \<le> snd ij \<and> snd ij < m_width m \<and> board m ! nat (fst ij) ! nat (snd ij)) xs)))"
proof (induction xs arbitrary: n)
  case Nil
  show ?case by simp
next
  case (Cons x xs)
  show ?case by (simp add: nearby_step_wf [OF wf] Cons.IH)
qed

section \<open>Sentence queries\<close>

text \<open>
  Claim C8. For every sentence, \<open>known_mines\<close> is the whole cell set when the number of
  cells equals the count and the count is positive, and empty otherwise; \<open>known_safes\<close>
  is the whole cell set when the count is zero, and empty otherwise.
\<close>

theorem known_mines_safes_exact:
  "known_mines s = (if int (card (cells s)) = count s \<and> count s > 0 then cells s else {})
   \<and> known_safes s = (if count s = 0 then cells s else {})"
  by (auto simp: known_mines_def known_safes_def)

section \<open>The new sentence of \<open>add_knowledge\<close>\<close>

text \<open>
  Claim C1 says the new sentence ranges over the whole 3x3 block around the cell, so that
  on a fresh 4x4 board \<open>add_knowledge((0,0), 0)\<close> marks \<open>(0,1)\<close>, \<open>(1,0)\<close> and \<open>(1,1)\<close>
  safe. The code examines only the four cells at row offsets \<open>-1, +2\<close> and column
  offsets \<open>-1, +2\<close>: on that board the call marks \<open>(2,2)\<close> safe and none of the three
  neighbours.
\<close>

theorem add_knowledge_corner_offsets_only:
  "add_knowledge (init 4 4) (0, 0) 0 =
     Some \<lparr>height = 4, width = 4, moves_made = {(0, 0)}, mines = {},
            safes = {(0, 0), (2, 2)}, knowledge = [\<lparr>cells = {}, count = 0\<rparr>]\<rparr>"
  by code_simp

text \<open>
  Claim C4 says the stored count is the supplied count minus the confirmed mines of the
  whole 3x3 block. The code intersects the mines with the neighbour set after the known
  mines were filtered out of it, so nothing is subtracted: after \<open>(2,2)\<close> has been
  confirmed a mine, the hint \<open>((1,1), 1)\<close> stores a sentence with count 1, although the
  confirmed mine \<open>(2,2)\<close> is adjacent to \<open>(1,1)\<close>.
\<close>

theorem add_knowledge_count_not_adjusted:
  "add_knowledge_seq (init 8 8) [((0, 0), 1), ((1, 1), 1)] =
     Some \<lparr>height = 8, width = 8, moves_made = {(0, 0), (1, 1)}, mines = {(2, 2)},
            safes = {(0, 0), (1, 1)},
            knowledge = [\<lparr>cells = {}, count = 0\<rparr>,
                         \<lparr>cells = {(0, 3), (3, 0), (3, 3)}, count = 1\<rparr>]\<rparr>"
  by code_simp

text \<open>
  Claim C5 says every sentence has \<open>0 \<le> count \<le> |cells|\<close> once \<open>add_knowledge\<close> has
  returned. On a fresh 8x8 board the hint \<open>((0,0), 3)\<close>, which a board with mines on
  \<open>(0,1)\<close>, \<open>(1,0)\<close> and \<open>(1,1)\<close> gives, leaves a sentence with one cell and count 3.
\<close>

theorem add_knowledge_count_exceeds_cells:
  "add_knowledge (init 8 8) (0, 0) 3 =
     Some \<lparr>height = 8, width = 8, moves_made = {(0, 0)}, mines = {},
            safes = {(0, 0)}, knowledge = [\<lparr>cells = {(2, 2)}, count = 3\<rparr>]\<rparr>"
  by code_simp

section \<open>Subset resolution\<close>

text \<open>
  Claim C2 says that from a sentence with cells \<open>{X, Y, Z}\<close> and count 1 and a sentence
  with cells \<open>{X, Y}\<close> and count 1 the cell \<open>Z\<close> ends up safe. Three hints on a fresh 8x8
  board produce the sentences \<open>{(2,5), (5,2), (5,5)} = 1\<close> and \<open>{(2,5), (5,5)} = 1\<close>;
  the code requires a positive count difference before it derives anything, so \<open>(5,2)\<close>
  is not marked safe and no sentence is derived.
\<close>

theorem add_knowledge_subset_not_resolved:
  "add_knowledge_seq (init 8 8) [((0, 0), 0), ((3, 3), 1), ((3, 6), 1)] =
     Some \<lparr>height = 8, width = 8, moves_made = {(0, 0), (3, 3), (3, 6)}, mines = {},
            safes = {(0, 0), (2, 2), (3, 3), (3, 6)},
            knowledge = [\<lparr>cells = {}, count = 0\<rparr>,
                         \<lparr>cells = {(2, 5), (5, 2), (5, 5)}, count = 1\<rparr>,
                         \<lparr>cells = {(2, 5), (5, 5)}, count = 1\<rparr>]\<rparr>"
  by code_simp

section \<open>Random moves\<close>

text \<open>
  Claim C7 says \<open>make_random_move\<close> chooses among all board cells that are neither moves
  made nor known mines, and returns no move when there is none. On a 2x2 board whose
  four cells have all been played, the code still offers \<open>(0,0)\<close>: the loops stop one
  short of the last row and column, and \<open>moves_made and mines\<close> is the (empty) set
  of mines.
\<close>

theorem make_random_move_returns_played_cell:
  "add_knowledge_seq (init 2 2) [((0, 0), 0), ((0, 1), 0), ((1, 0), 0), ((1, 1), 0)] =
     Some \<lparr>height = 2, width = 2, moves_made = {(0, 0), (0, 1), (1, 0), (1, 1)}, mines = {},
            safes = {(0, 0), (0, 1), (1, 0), (1, 1)},
            knowledge = [\<lparr>cells = {}, count = 0\<rparr>, \<lparr>cells = {}, count = 0\<rparr>,
                         \<lparr>cells = {}, count = 0\<rparr>, \<lparr>cells = {}, count = 0\<rparr>]\<rparr>
   \<and> possible_moves \<lparr>height = 2, width = 2, moves_made = {(0, 0), (0, 1), (1, 0), (1, 1)},
            mines = {}, safes = {(0, 0), (0, 1), (1, 0), (1, 1)},
            knowledge = [\<lparr>cells = {}, count = 0\<rparr>, \<lparr>cells = {}, count = 0\<rparr>,
                         \<lparr>cells = {}, count = 0\<rparr>, \<lparr>cells = {}, count = 0\<rparr>]\<rparr> = [(0, 0)]
   \<and> make_random_move \<lparr>height = 2, width = 2, moves_made = {(0, 0), (0, 1), (1, 0), (1, 1)},
            mines = {}, safes = {(0, 0), (0, 1), (1, 0), (1, 1)},
            knowledge = [\<lparr>cells = {}, count = 0\<rparr>, \<lparr>cells = {}, count = 0\<rparr>,
                         \<lparr>cells = {}, count = 0\<rparr>, \<lparr>cells = {}, count = 0\<rparr>]\<rparr> 0 = Some (0, 0)"
  by code_simp

section \<open>Bounds of the minefield queries\<close>

text \<open>
  Claim C9 says every minefield query on a cell off the board fails at once and never
  reinterprets the coordinates. On a 2x2 board with its mine on \<open>(1,1)\<close>, \<open>is_mine\<close> at
  \<open>(-1,-1)\<close> answers for the cell \<open>(1,1)\<close>, and \<open>nearby_mines\<close> at \<open>(2,2)\<close> answers 1.
\<close>

theorem minefield_out_of_bounds_counterexample:
  "is_mine \<lparr>m_height = 2, m_width = 2, board = [[False, False], [False, True]],
             m_mines = {(1, 1)}, mines_found = {}\<rparr> (-1, -1) = Inr True
   \<and> nearby_mines \<lparr>m_height = 2, m_width = 2, board = [[False, False], [False, True]],
             m_mines = {(1, 1)}, mines_found = {}\<rparr> (2, 2) = Inr 1"
  by code_simp

text \<open>
  Claim C9, as the code has it. On a board of \<open>height\<close> rows of \<open>width\<close> entries,
  \<open>is_mine\<close> fails with \<open>IndexError\<close> exactly when the row is outside \<open>[-height, height)\<close>
  or the column outside \<open>[-width, width)\<close>, and otherwise answers for the cell with the
  row taken modulo the height and the column modulo the width; \<open>nearby_mines\<close> never
  fails: for every cell it returns the number of mines among the cells of the 3x3 block
  around it that are on the board and differ from it.
\<close>

theorem minefield_queries_never_check_bounds:
  assumes "wf_board m"
  shows "is_mine m (i, j) =
     (if - m_height m \<le> i \<and> i < m_height m \<and> - m_width m \<le> j \<and> j < m_width m
      then Inr (board m ! nat (i mod m_height m) ! nat (j mod m_width m))
      else Inl IndexError)
   \<and> nearby_mines m cell =
     Inr (int (length (filter (\<lambda>ij. ij \<noteq> cell \<and> 0 \<le> fst ij \<and> fst ij < m_height m \<and>
              0 \<le> snd ij \<and> snd ij < m_width m \<and> board m ! nat (fst ij) ! nat (snd ij))
            [(a, b). a \<leftarrow> [fst cell - 1 .. fst cell + 1], b \<leftarrow> [snd cell - 1 .. snd cell + 1]])))"
  using is_mine_wf [OF assms] nearby_fold_wf [OF assms, of cell _ 0]
  by (simp add: nearby_mines_def)

theorem minefield_queries_never_check_bounds_witness:
  "wf_board \<lparr>m_height = 2, m_width = 2, board = [[False, False], [False, True]],
             m_mines = {(1, 1)}, mines_found = {}\<rparr>
   \<and> is_mine \<lparr>m_height = 2, m_width = 2, board = [[False, False], [False, True]],
             m_mines = {(1, 1)}, mines_found = {}\<rparr> (-1, -1) = Inr True
   \<and> nearby_mines \<lparr>m_height = 2, m_width = 2, board = [[False, False], [False, True]],
             m_mines = {(1, 1)}, mines_found = {}\<rparr> (5, 5) = Inr 0"
proof -
  have wf: "wf_board \<lparr>m_height = 2, m_width = 2, board = [[False, False], [False, True]],
             m_mines = {(1, 1)}, mines_found = {}\<rparr>"
    by (simp add: wf_board_def)
  show ?thesis
    using wf minefield_queries_never_check_bounds [OF wf, of "-1" "-1" "(5, 5)"]
    by simp
qed

section \<open>The list of sentences only grows\<close>

text \<open>
  Claim C10. \<open>mark_mine\<close> and \<open>mark_safe\<close> keep the number of sentences, a call of
  \<open>add_knowledge\<close> that returns leaves strictly more sentences than before, and under all
  three every earlier sentence stays at its position, changed at most by losing cells:
  no sentence is removed, and a sentence without cells stays in the list.
\<close>

theorem knowledge_only_grows:
  "extends a (ai_mark_mine c a) \<and> length (knowledge (ai_mark_mine c a)) = length (knowledge a)
   \<and> extends a (ai_mark_safe c a) \<and> length (knowledge (ai_mark_safe c a)) = length (knowledge a)
   \<and> (add_knowledge a c n = Some a' \<longrightarrow>
        extends a a' \<and> length (knowledge a) < length (knowledge a'))"
  using extends_add_knowledge [of a c n a']
  by (simp add: ai_mark_mine_bulk ai_mark_safe_bulk extends_mark_mines extends_mark_safes)

theorem knowledge_only_grows_witness:
  "add_knowledge
     \<lparr>height = 8, width = 8, moves_made = {(0, 0)}, mines = {(2, 2)}, safes = {(0, 0)},
      knowledge = [\<lparr>cells = {}, count = 0\<rparr>]\<rparr> (1, 1) 1 =
     Some \<lparr>height = 8, width = 8, moves_made = {(0, 0), (1, 1)}, mines = {(2, 2)},
           safes = {(0, 0), (1, 1)},
           knowledge = [\<lparr>cells = {}, count = 0\<rparr>,
                        \<lparr>cells = {(0, 3), (3, 0), (3, 3)}, count = 1\<rparr>]\<rparr>
   \<and> extends
        \<lparr>height = 8, width = 8, moves_made = {(0, 0)}, mines = {(2, 2)}, safes = {(0, 0)},
         knowledge = [\<lparr>cells = {}, count = 0\<rparr>]\<rparr>
        \<lparr>height = 8, width = 8, moves_made = {(0, 0), (1, 1)}, mines = {(2, 2)},
         safes = {(0, 0), (1, 1)},
         knowledge = [\<lparr>cells = {}, count = 0\<rparr>,
                      \<lparr>cells = {(0, 3), (3, 0), (3, 3)}, count = 1\<rparr>]\<rparr>"
  (is "add_knowledge ?A ?c ?n = Some ?B \<and> _")
proof -
  have run: "add_knowledge ?A ?c ?n = Some ?B" by code_simp
  show ?thesis using run knowledge_only_grows [of ?A ?c ?n ?B] by blast
qed

section \<open>Direct inference\<close>

text \<open>
  Claim C3 says \<open>add_knowledge\<close> repeats the scan of the sentences until a full pass marks
  nothing new, so that no sentence is left with known mines or known safes unmarked.
  The code scans the list once. Three hints on a fresh 8x8 board, the ones a board with
  mines on \<open>(1,1)\<close>, \<open>(1,4)\<close> and \<open>(1,7)\<close> gives, return with the sentence \<open>{(2,0)} = 1\<close>
  in the list: its known mine \<open>(2,0)\<close> is not in \<open>mines\<close>, because the sentence was
  visited before the later sentence \<open>{(2,3)} = 0\<close> made \<open>(2,3)\<close> safe and shrank it.
\<close>

theorem add_knowledge_single_pass:
  "add_knowledge_seq (init 8 8) [((0, 1), 1), ((0, 4), 1), ((0, 7), 1)] =
     Some \<lparr>height = 8, width = 8, moves_made = {(0, 1), (0, 4), (0, 7)}, mines = {(2, 6)},
           safes = {(0, 1), (0, 4), (0, 7), (2, 3)},
           knowledge = [\<lparr>cells = {(2, 0)}, count = 1\<rparr>, \<lparr>cells = {}, count = 0\<rparr>,
                        \<lparr>cells = {}, count = 0\<rparr>]\<rparr>
   \<and> known_mines \<lparr>cells = {(2, 0)}, count = 1\<rparr> = {(2, 0)}"
  by code_simp

section \<open>Safe cells and mines are disjoint\<close>

text \<open>
  Claim C6 says \<open>safes\<close> and \<open>mines\<close> are disjoint after any sequence of calls. Neither
  \<open>mark_mine\<close> nor \<open>mark_safe\<close> looks at the other set: marking \<open>(0,0)\<close> as a mine and
  then as safe leaves it in both.
\<close>

theorem safes_mines_overlap_counterexample:
  "safes (ai_mark_safe (0, 0) (ai_mark_mine (0, 0) (init 8 8)))
     \<inter> mines (ai_mark_safe (0, 0) (ai_mark_mine (0, 0) (init 8 8))) = {(0, 0)}"
  by (simp add: ai_mark_safe_def ai_mark_mine_def init_def)

text \<open>
  Claim C6, as the code has it. \<open>safes\<close> and \<open>mines\<close> are disjoint after construction and
  after every sequence of calls in which \<open>mark_mine\<close> is given a cell not in \<open>safes\<close>,
  \<open>mark_safe\<close> a cell not in \<open>mines\<close>, and \<open>add_knowledge\<close> a cell not in \<open>mines\<close>.
\<close>

theorem safes_mines_disjoint: "reachable a \<Longrightarrow> safes a \<inter> mines a = {}"
  using reachable_consistent by (simp add: consistent_def)

theorem safes_mines_disjoint_witness:
  "reachable \<lparr>height = 8, width = 8, moves_made = {(0, 0)}, mines = {(2, 2)}, safes = {(0, 0)},
              knowledge = [\<lparr>cells = {}, count = 0\<rparr>]\<rparr>
   \<and> safes \<lparr>height = 8, width = 8, moves_made = {(0, 0)}, mines = {(2, 2)}, safes = {(0, 0)},
              knowledge = [\<lparr>cells = {}, count = 0\<rparr>]\<rparr>
     \<inter> mines \<lparr>height = 8, width = 8, moves_made = {(0, 0)}, mines = {(2, 2)}, safes = {(0, 0)},
              knowledge = [\<lparr>cells = {}, count = 0\<rparr>]\<rparr> = {}"
proof -
  have run: "add_knowledge (init 8 8) (0, 0) 1 =
     Some \<lparr>height = 8, width = 8, moves_made = {(0, 0)}, mines = {(2, 2)}, safes = {(0, 0)},
           knowledge = [\<lparr>cells = {}, count = 0\<rparr>]\<rparr>"
    by code_simp
  have "(0, 0) \<notin> mines (init 8 8)" by (simp add: init_def)
  then have r: "reachable \<lparr>height = 8, width = 8, moves_made = {(0, 0)}, mines = {(2, 2)},
      safes = {(0, 0)}, knowledge = [\<lparr>cells = {}, count = 0\<rparr>]\<rparr>"
    using reachable.hint [OF reachable.start _ run] by simp
  show ?thesis using r safes_mines_disjoint [OF r] by simp
qed

end
